theory Spec2Isabelle
  imports Main
begin

section \<open>The JSON tokenizer of \<open>jsont.cc\<close>\<close>

text \<open>
  The tokenizer keeps a cursor \<open>_offset\<close> into a borrowed byte buffer \<open>_input\<close>, the
  current token \<open>_token\<close>, the error code \<open>_error\<close> and the slice \<open>_value\<close> of the last
  value-bearing token. Bytes are \<^typ>\<open>char\<close> (eight bits), the buffer is a
  \<^typ>\<open>string\<close>. Offsets and counts are \<open>size_t\<close> in the source; they are bounded by the
  buffer length, which is below \<open>2 ^ 64\<close>, so they are modelled as \<^typ>\<open>nat\<close>.

  A \<open>string_view\<close> has no sentinel byte: \<open>_input[i]\<close> with \<open>i\<close> at or after the length is
  undefined behaviour. Every read of the model is bounds-checked and such a read ends the
  run with \<open>OutOfBoundsRead i\<close>. All functions are \<open>noexcept\<close>: an exception thrown by a
  library call (\<open>substr\<close>, \<open>compare\<close>, \<open>stoll\<close>) ends the run as \<open>Terminated\<close>.

  Every scanning function of the source returns a \<open>Token\<close> which is the value of \<open>_token\<close>
  at the moment of return (\<open>setToken\<close> and \<open>setError\<close> return what they store, \<open>current()\<close>
  reads it), so the model returns the state only and the returned token is its \<open>token\<close>.
\<close>

subsection \<open>Data\<close>

text \<open>
  The token enumeration. \<open>True\<close> and \<open>False\<close> of the source carry a suffix here.
  \<open>Comma\<close> is the internal marker that remembers a comma seen between two values; it is
  never handed to the caller.
\<close>

datatype Token =
  End | ObjectStart | ObjectEnd | ArrayStart | ArrayEnd | True_tok | False_tok | Null
  | Integer | Float | String | FieldName | Error | Comma

datatype ErrorCode =
  UnspecifiedError | UnexpectedComma | UnexpectedTrailingComma | InvalidByte
  | PrematureEndOfInput | MalformedUnicodeEscapeSequence | MalformedNumberLiteral
  | UnterminatedString | SyntaxError

datatype fault = OutOfBoundsRead nat | Terminated

text \<open>\<open>_value\<close> is a view into the buffer: the index of its first byte and its length.\<close>

record Tokenizer =
  input :: string
  offset :: nat
  token :: Token
  error :: ErrorCode
  val :: "nat \<times> nat"

subsection \<open>Byte classes (the \<open>C\<close> locale)\<close>

definition safe_isdigit :: "char \<Rightarrow> bool" where
  "safe_isdigit c = (let n = (of_char c :: nat) in 48 \<le> n \<and> n \<le> 57)"

definition safe_isalnum :: "char \<Rightarrow> bool" where
  "safe_isalnum c =
     (let n = (of_char c :: nat)
      in (48 \<le> n \<and> n \<le> 57) \<or> (65 \<le> n \<and> n \<le> 90) \<or> (97 \<le> n \<and> n \<le> 122))"

definition is_plus_minus :: "char \<Rightarrow> bool" where
  "is_plus_minus c = (c = CHR ''+'' \<or> c = CHR ''-'')"

definition is_exponent_introducer :: "char \<Rightarrow> bool" where
  "is_exponent_introducer c = (c = CHR ''E'' \<or> c = CHR ''e'')"

definition is_ws :: "char \<Rightarrow> bool" where
  "is_ws b = (b = CHR '' '' \<or> b = CHR 0x09 \<or> b = CHR 0x0D \<or> b = CHR 0x0A)"

subsection \<open>The inline members declared in \<open>jsont.hh\<close>\<close>

text \<open>
  Modelled from the spec: the header \<open>jsont.hh\<close> is missing, and with it the inline
  members \<open>endOfInput\<close>, \<open>availableInput\<close>, \<open>setToken\<close>, \<open>setError\<close>, \<open>hasValue\<close>,
  \<open>readComma\<close>, \<open>readEndBracket\<close> and the constructor. The cursor satisfies
  \<open>0 \<le> offset \<le> length\<close>; the input is exhausted when the cursor is at the length, and
  the available input is what lies between the cursor and the length.
\<close>

definition endOfInput :: "Tokenizer \<Rightarrow> bool" where
  "endOfInput t = (offset t = length (input t))"

definition availableInput :: "Tokenizer \<Rightarrow> nat" where
  "availableInput t = length (input t) - offset t"

text \<open>Modelled from the spec: exactly one token is current after each call.\<close>

definition setToken :: "Token \<Rightarrow> Tokenizer \<Rightarrow> Tokenizer" where
  "setToken k t = t\<lparr>token := k\<rparr>"

text \<open>
  Modelled from the spec: all failures are reported through the single \<open>Error\<close> token
  plus the associated error code.
\<close>

definition setError :: "ErrorCode \<Rightarrow> Tokenizer \<Rightarrow> Tokenizer" where
  "setError e t = t\<lparr>token := Error, error := e\<rparr>"

text \<open>
  Modelled from the spec: the tokens that carry a value are \<open>FieldName\<close>, \<open>String\<close>,
  \<open>Integer\<close> and \<open>Float\<close>.
\<close>

definition hasValue :: "Tokenizer \<Rightarrow> bool" where
  "hasValue t = (token t = FieldName \<or> token t = String \<or> token t = Integer \<or> token t = Float)"

text \<open>
  Modelled from the spec: the scanner is constructed over a buffer or reset onto a new
  one, with the cursor at 0. The spec does not say which token and error code are
  current before the first call; \<open>End\<close> and \<open>UnspecifiedError\<close> stand for them.
\<close>

definition reset :: "string \<Rightarrow> Tokenizer" where
  "reset buf = \<lparr>input = buf, offset = 0, token = End, error = UnspecifiedError, val = (0, 0)\<rparr>"

text \<open>The bounds-checked read \<open>_input[i]\<close>.\<close>

definition peek :: "Tokenizer \<Rightarrow> nat \<Rightarrow> fault + char" where
  "peek t i = (if i < length (input t) then Inr (input t ! i) else Inl (OutOfBoundsRead i))"

text \<open>
  \<open>_input.substr(pos, n)\<close>: throws \<open>out_of_range\<close> when \<open>pos\<close> is past the
  length, and clamps \<open>n\<close> to what is left.
\<close>

definition substr :: "Tokenizer \<Rightarrow> nat \<Rightarrow> nat \<Rightarrow> fault + (nat \<times> nat)" where
  "substr t pos n =
     (if length (input t) < pos then Inl Terminated
      else Inr (pos, min n (length (input t) - pos)))"

text \<open>The bytes a view denotes, and \<open>dataValue\<close> for a value-bearing token.\<close>

definition view_bytes :: "string \<Rightarrow> nat \<times> nat \<Rightarrow> string" where
  "view_bytes buf v = take (snd v) (drop (fst v) buf)"

definition dataValue :: "Tokenizer \<Rightarrow> string" where
  "dataValue t = view_bytes (input t) (val t)"

subsection \<open>Whitespace\<close>

function skipWS :: "Tokenizer \<Rightarrow> fault + Tokenizer" where
  "skipWS t =
     (if endOfInput t then Inr t
      else case peek t (offset t) of
        Inl f \<Rightarrow> Inl f
      | Inr b \<Rightarrow>
          let t1 = t\<lparr>offset := offset t + 1\<rparr>
          in if is_ws b then skipWS t1
             else Inr (t1\<lparr>offset := offset t1 - 1\<rparr>))"
  by pat_completeness auto
termination
  by (relation "measure (\<lambda>t. length (input t) - offset t)")
     (auto simp: peek_def split: if_splits)

declare skipWS.simps [simp del]

subsection \<open>Atoms\<close>

text \<open>
  \<open>_input.compare(_offset, n, atom)\<close> throws when \<open>_offset\<close> is past the length and
  compares at most \<open>n\<close> of the remaining bytes with \<open>atom\<close>.
\<close>

definition readAtom :: "string \<Rightarrow> Token \<Rightarrow> Tokenizer \<Rightarrow> fault + Tokenizer" where
  "readAtom atom k t =
     (if availableInput t < length atom then Inr (setError PrematureEndOfInput t)
      else if length (input t) < offset t then Inl Terminated
      else if take (length atom) (drop (offset t) (input t)) \<noteq> atom
        then Inr (setError InvalidByte t)
      else if availableInput t > length atom then
        (case peek t (offset t + length atom) of
           Inl f \<Rightarrow> Inl f
         | Inr c \<Rightarrow>
             if safe_isalnum c then Inr (setError SyntaxError t)
             else Inr (setToken k (t\<lparr>offset := offset t + length atom\<rparr>)))
      else Inr (setToken k (t\<lparr>offset := offset t + length atom\<rparr>)))"

subsection \<open>Numbers\<close>

text \<open>
  The loop of \<open>readDigits\<close>: the condition reads a byte and moves the cursor past it
  whenever the input is not exhausted, also when the byte read is not a digit.
\<close>

function readDigits_loop :: "nat \<Rightarrow> Tokenizer \<Rightarrow> fault + (nat \<times> Tokenizer)" where
  "readDigits_loop digits t =
     (if endOfInput t then Inr (digits, t)
      else case peek t (offset t) of
        Inl f \<Rightarrow> Inl f
      | Inr b \<Rightarrow>
          let t1 = t\<lparr>offset := offset t + 1\<rparr>
          in if safe_isdigit b then readDigits_loop (digits + 1) t1
             else Inr (digits, t1))"
  by pat_completeness auto
termination
  by (relation "measure (\<lambda>(d, t). length (input t) - offset t)")
     (auto simp: peek_def split: if_splits)

declare readDigits_loop.simps [simp del]

definition readDigits :: "nat \<Rightarrow> Tokenizer \<Rightarrow> fault + (bool \<times> Tokenizer)" where
  "readDigits digits t =
     (case readDigits_loop digits t of
        Inl f \<Rightarrow> Inl f
      | Inr (d, t1) \<Rightarrow>
          Inr (d > 0, if \<not> endOfInput t1 then t1\<lparr>offset := offset t1 - 1\<rparr> else t1))"

definition readFraction :: "Tokenizer \<Rightarrow> fault + (bool \<times> Tokenizer)" where
  "readFraction t =
     (if endOfInput t then Inr (True, t)
      else case peek t (offset t) of
        Inl f \<Rightarrow> Inl f
      | Inr b \<Rightarrow>
          if b \<noteq> CHR ''.'' then Inr (True, t)
          else let t1 = setToken Float t;
                   t2 = t1\<lparr>offset := offset t1 + 1\<rparr>
               in readDigits 0 t2)"

text \<open>After the introducer the source reads \<open>_input[_offset]\<close> with no test for the end.\<close>

definition readExponent :: "Tokenizer \<Rightarrow> fault + (bool \<times> Tokenizer)" where
  "readExponent t =
     (if endOfInput t then Inr (True, t)
      else case peek t (offset t) of
        Inl f \<Rightarrow> Inl f
      | Inr b \<Rightarrow>
          if \<not> is_exponent_introducer b then Inr (True, t)
          else let t1 = setToken Float t;
                   t2 = t1\<lparr>offset := offset t1 + 1\<rparr>
               in (case peek t2 (offset t2) of
                     Inl f \<Rightarrow> Inl f
                   | Inr c \<Rightarrow>
                       let t3 = (if is_plus_minus c then t2\<lparr>offset := offset t2 + 1\<rparr> else t2)
                       in readDigits 0 t3))"

text \<open>
  \<open>readNumber\<close>: the three parts are joined by the short-circuit \<open>||\<close>, so a part runs
  only when the parts before it succeeded.
\<close>

definition readNumber :: "char \<Rightarrow> nat \<Rightarrow> Tokenizer \<Rightarrow> fault + Tokenizer" where
  "readNumber b token_start t =
     (let have_digit = safe_isdigit b
      in if \<not> have_digit \<and> b \<noteq> CHR ''-'' then Inr (setError InvalidByte t)
         else
           case readDigits (if have_digit then 1 else 0) (setToken Integer t) of
             Inl f \<Rightarrow> Inl f
           | Inr (ok1, t1) \<Rightarrow>
               if \<not> ok1 then Inr (setError MalformedNumberLiteral t1)
               else (case readFraction t1 of
                 Inl f \<Rightarrow> Inl f
               | Inr (ok2, t2) \<Rightarrow>
                   if \<not> ok2 then Inr (setError MalformedNumberLiteral t2)
                   else (case readExponent t2 of
                     Inl f \<Rightarrow> Inl f
                   | Inr (ok3, t3) \<Rightarrow>
                       if \<not> ok3 then Inr (setError MalformedNumberLiteral t3)
                       else (case substr t3 token_start (offset t3 - token_start) of
                         Inl f \<Rightarrow> Inl f
                       | Inr v \<Rightarrow> Inr (t3\<lparr>val := v\<rparr>)))))"

subsection \<open>Strings and field names\<close>

text \<open>
  The scanning loop of \<open>readString\<close> either returns an error from inside the loop or
  falls out of it (by \<open>break\<close> or at the end of the input) with the last byte read in
  \<open>b\<close>; \<open>b\<close> is the byte the caller passed while the loop has read nothing.
\<close>

datatype loop_exit = Returned Tokenizer | Fell_out char Tokenizer

function readString_loop :: "char \<Rightarrow> Tokenizer \<Rightarrow> fault + loop_exit" where
  "readString_loop b t =
     (if endOfInput t then Inr (Fell_out b t)
      else case peek t (offset t) of
        Inl f \<Rightarrow> Inl f
      | Inr b' \<Rightarrow>
          let t1 = t\<lparr>offset := offset t + 1\<rparr>
          in if b' = CHR 0x5C then
               (if endOfInput t1 then Inr (Returned (setError PrematureEndOfInput t1))
                else readString_loop b' (t1\<lparr>offset := offset t1 + 1\<rparr>))
             else if b' = CHR 0x22 then Inr (Fell_out b' t1)
             else if b' = CHR 0x00 then Inr (Returned (setError InvalidByte t1))
             else readString_loop b' t1)"
  by pat_completeness auto
termination
  by (relation "measure (\<lambda>(b, t). length (input t) - offset t)")
     (auto simp: peek_def split: if_splits)

declare readString_loop.simps [simp del]

definition readString :: "char \<Rightarrow> nat \<Rightarrow> Tokenizer \<Rightarrow> fault + Tokenizer" where
  "readString b token_start t =
     (case readString_loop b t of
        Inl f \<Rightarrow> Inl f
      | Inr (Returned t') \<Rightarrow> Inr t'
      | Inr (Fell_out b1 t1) \<Rightarrow>
          if b1 \<noteq> CHR 0x22 then Inr (setError UnterminatedString t1)
          else (case substr t1 token_start (offset t1 - token_start) of
            Inl f \<Rightarrow> Inl f
          | Inr v \<Rightarrow>
              (case skipWS (t1\<lparr>val := v\<rparr>) of
                 Inl f \<Rightarrow> Inl f
               | Inr t2 \<Rightarrow>
                   if \<not> endOfInput t2 then
                     (case peek t2 (offset t2) of
                        Inl f \<Rightarrow> Inl f
                      | Inr b2 \<Rightarrow>
                          let t3 = t2\<lparr>offset := offset t2 + 1\<rparr>
                          in if b2 = CHR '':'' then Inr (setToken FieldName t3)
                             else if b2 = CHR '','' \<or> b2 = CHR '']'' \<or> b2 = CHR ''}''
                               then Inr (setToken String (t3\<lparr>offset := offset t3 - 1\<rparr>))
                             else if b2 = CHR 0x00 then Inr (setError InvalidByte t3)
                             else Inr (setError SyntaxError t3))
                   else Inr (setToken String t2))))"

subsection \<open>Commas and closing brackets\<close>

text \<open>
  Modelled from the spec: \<open>readEndBracket\<close> is declared in the missing header. A
  closing bracket must not be immediately preceded by a dangling comma, which is
  detected from the last thing emitted, not by scanning again; otherwise the bracket
  (already consumed by the caller) yields its token.
\<close>

definition readEndBracket :: "Token \<Rightarrow> Tokenizer \<Rightarrow> fault + Tokenizer" where
  "readEndBracket k t =
     (if token t = Comma then Inr (setError UnexpectedTrailingComma t)
      else Inr (setToken k t))"

text \<open>
  Modelled from the spec: a comma is only legal following a value, a \<open>]\<close> or a \<open>}\<close>.
\<close>

definition comma_legal_after :: "Token \<Rightarrow> bool" where
  "comma_legal_after k =
     (k = String \<or> k = Integer \<or> k = Float \<or> k = True_tok \<or> k = False_tok \<or> k = Null
      \<or> k = ArrayEnd \<or> k = ObjectEnd)"

subsection \<open>The driving function \<open>next\<close>\<close>

text \<open>
  \<open>next\<close> skips whitespace and dispatches on the next byte; every case of the switch
  returns, so the \<open>while\<close> of the source runs its body at most once.

  Modelled from the spec: \<open>readComma\<close> is declared in the missing header. A comma
  with nothing meaningful before it is an \<open>UnexpectedComma\<close>; a legal comma is not a
  token of its own: the scanner remembers it and the same call goes on to the token that
  follows.
\<close>

function next_token :: "Tokenizer \<Rightarrow> fault + Tokenizer"
  and readComma :: "Tokenizer \<Rightarrow> fault + Tokenizer" where
  "next_token t =
     (case skipWS t of
        Inl f \<Rightarrow> Inl f
      | Inr t0 \<Rightarrow>
          if endOfInput t0 then Inr (setToken End t0)
          else (case peek t0 (offset t0) of
            Inl f \<Rightarrow> Inl f
          | Inr b \<Rightarrow>
              let token_start = offset t0;
                  t1 = t0\<lparr>offset := offset t0 + 1\<rparr>
              in if b = CHR ''{'' then Inr (setToken ObjectStart t1)
                 else if b = CHR ''}'' then readEndBracket ObjectEnd t1
                 else if b = CHR ''['' then Inr (setToken ArrayStart t1)
                 else if b = CHR '']'' then readEndBracket ArrayEnd t1
                 else if b = CHR ''n'' then readAtom ''ull'' Null t1
                 else if b = CHR ''t'' then readAtom ''rue'' True_tok t1
                 else if b = CHR ''f'' then readAtom ''alse'' False_tok t1
                 else if b = CHR 0x00 then Inr (setError InvalidByte t1)
                 else if b = CHR 0x22 then readString b token_start t1
                 else if b = CHR '','' then readComma t1
                 else readNumber b token_start t1))"
| "readComma t =
     (if \<not> comma_legal_after (token t) then Inr (setError UnexpectedComma t)
      else next_token (setToken Comma t))"
  by pat_completeness auto

termination
proof -
  have frame: "skipWS t = Inr t' \<Longrightarrow> input t' = input t \<and> offset t \<le> offset t'" for t t'
  proof (induction t rule: skipWS.induct)
    case (1 t)
    show ?case
    proof (cases "endOfInput t")
      case True
      with "1.prems" show ?thesis by (simp add: skipWS.simps)
    next
      case False
      then obtain b where pk: "peek t (offset t) = Inr b"
        using "1.prems" by (cases "peek t (offset t)") (auto simp: skipWS.simps)
      show ?thesis
      proof (cases "is_ws b")
        case True
        with False pk "1.prems" have "skipWS (t\<lparr>offset := offset t + 1\<rparr>) = Inr t'"
          by (simp add: skipWS.simps [of t])
        from "1.IH" [OF False pk refl True this] show ?thesis by simp
      next
        case False
        with \<open>\<not> endOfInput t\<close> pk "1.prems" show ?thesis
          by (auto simp: skipWS.simps [of t])
      qed
    qed
  qed
  show ?thesis
  proof (relation "measure (\<lambda>x. case x of
            Inl t \<Rightarrow> 2 * (length (input t) - offset t) + 1
          | Inr t \<Rightarrow> 2 * (length (input t) - offset t) + 2)", goal_cases)
    case 1
    show ?case by simp
  next
    case (2 t t0 b token_start t1)
    from frame [OF 2(1)] 2 show ?case
      by (auto simp: peek_def split: if_splits)
  next
    case (3 t)
    show ?case by (simp add: setToken_def)
  qed
qed

declare next_token.simps [simp del] readComma.simps [simp del]

text \<open>
  What the caller can observe after a call: the token, the error code when the token is
  \<open>Error\<close>, the bytes of the slice when the token carries a value, and the cursor.
\<close>

definition observe :: "Tokenizer \<Rightarrow> Token \<times> ErrorCode option \<times> string \<times> nat" where
  "observe t =
     (token t, if token t = Error then Some (error t) else None,
      if hasValue t then dataValue t else [], offset t)"

text \<open>
  The caller's pull loop: it calls \<open>next\<close> until \<open>End\<close>, \<open>Error\<close>, a fault, or
  \<open>n\<close> calls, and records what it observes after each call.
\<close>

fun pull :: "nat \<Rightarrow> Tokenizer \<Rightarrow> (fault + Token \<times> ErrorCode option \<times> string \<times> nat) list" where
  "pull 0 t = []"
| "pull (Suc n) t =
     (case next_token t of
        Inl f \<Rightarrow> [Inl f]
      | Inr t' \<Rightarrow>
          Inr (observe t') # (if token t' = End \<or> token t' = Error then [] else pull n t'))"

text \<open>\<open>n\<close> calls of \<open>next\<close> in a row, whatever they return.\<close>

fun next_n :: "nat \<Rightarrow> Tokenizer \<Rightarrow> fault + Tokenizer" where
  "next_n 0 t = Inr t"
| "next_n (Suc n) t = (case next_token t of Inl f \<Rightarrow> Inl f | Inr t' \<Rightarrow> next_n n t')"

subsection \<open>Numeric conversions\<close>

text \<open>
  \<open>isspace\<close>, \<open>isxdigit\<close> and \<open>tolower\<close> in the \<open>C\<close> locale, and the characters
  allowed between the parentheses of \<open>NAN(...)\<close>.
\<close>

definition isspace_c :: "char \<Rightarrow> bool" where
  "isspace_c c = (c = CHR '' '' \<or> c = CHR 0x09 \<or> c = CHR 0x0A \<or> c = CHR 0x0B
      \<or> c = CHR 0x0C \<or> c = CHR 0x0D)"

definition is_xdigit :: "char \<Rightarrow> bool" where
  "is_xdigit c =
     (let n = (of_char c :: nat)
      in (48 \<le> n \<and> n \<le> 57) \<or> (65 \<le> n \<and> n \<le> 70) \<or> (97 \<le> n \<and> n \<le> 102))"

definition to_lower :: "char \<Rightarrow> char" where
  "to_lower c =
     (let n = (of_char c :: nat) in if 65 \<le> n \<and> n \<le> 90 then char_of (n + 32) else c)"

definition is_nchar :: "char \<Rightarrow> bool" where
  "is_nchar c = (safe_isalnum c \<or> c = CHR ''_'')"

text \<open>
  The library routines get a pointer into memory and read byte after byte until they meet
  a byte that cannot continue what they parse. Memory is given as the index \<open>i\<close> of the
  byte the pointer is at and the bytes from there to the end of the allocation; a read
  after the last of them is \<open>OutOfBoundsRead\<close>. \<open>span_read P\<close> reads bytes while
  \<open>P\<close> holds and returns them together with the index and the bytes from the first one
  that fails \<open>P\<close>, which it has read.
\<close>

fun span_read :: "(char \<Rightarrow> bool) \<Rightarrow> nat \<Rightarrow> string \<Rightarrow> fault + (string \<times> nat \<times> string)" where
  "span_read P i [] = Inl (OutOfBoundsRead i)"
| "span_read P i (c # cs) =
     (if P c then
        (case span_read P (i + 1) cs of
           Inl f \<Rightarrow> Inl f
         | Inr (xs, j, r) \<Rightarrow> Inr (c # xs, j, r))
      else Inr ([], i, c # cs))"

text \<open>Comparing with a lower-case word, ignoring case, until the first difference.\<close>

fun match_ci :: "string \<Rightarrow> nat \<Rightarrow> string \<Rightarrow> fault + bool" where
  "match_ci [] i bytes = Inr True"
| "match_ci (p # ps) i [] = Inl (OutOfBoundsRead i)"
| "match_ci (p # ps) i (c # cs) = (if to_lower c = p then match_ci ps (i + 1) cs else Inr False)"

text \<open>
  \<open>strtoll(p, nullptr, 10)\<close> (ISO C, 7.22.1.4): white space, an optional sign, decimal
  digits. The result is the value, clamped to the range of \<open>long long\<close>, whether a
  conversion was performed, and whether the value was out of range (\<open>ERANGE\<close>).
\<close>

definition dec_value :: "string \<Rightarrow> int" where
  "dec_value ds = foldl (\<lambda>a c. 10 * a + (of_char c - 48)) 0 ds"

definition LLONG_MAX :: int where "LLONG_MAX = 9223372036854775807"
definition LLONG_MIN :: int where "LLONG_MIN = - 9223372036854775808"

definition strtoll :: "nat \<Rightarrow> string \<Rightarrow> fault + (int \<times> bool \<times> bool)" where
  "strtoll i bytes =
     (case span_read isspace_c i bytes of
        Inl f \<Rightarrow> Inl f
      | Inr (ws, j, r) \<Rightarrow>
          (case r of
             [] \<Rightarrow> Inl (OutOfBoundsRead j)
           | c # r' \<Rightarrow>
               (case (if is_plus_minus c then span_read safe_isdigit (j + 1) r'
                      else span_read safe_isdigit j r) of
                  Inl f \<Rightarrow> Inl f
                | Inr (ds, k, r'') \<Rightarrow>
                    let v = (if c = CHR ''-'' then - dec_value ds else dec_value ds)
                    in Inr (if v < LLONG_MIN then LLONG_MIN
                            else if LLONG_MAX < v then LLONG_MAX else v,
                            ds \<noteq> [], v < LLONG_MIN \<or> LLONG_MAX < v))))"

text \<open>
  \<open>std::stoll(string(_value), nullptr, 10)\<close>: the slice is copied into a \<open>std::string\<close>,
  whose \<open>c_str()\<close> ends with a NUL; \<open>strtoll\<close> runs on the copy. It throws
  \<open>invalid_argument\<close> when nothing was converted and \<open>out_of_range\<close> on \<open>ERANGE\<close>;
  in a \<open>noexcept\<close> function either ends the program.
\<close>

definition stoll :: "string \<Rightarrow> fault + int" where
  "stoll s =
     (case strtoll 0 (s @ [CHR 0x00]) of
        Inl f \<Rightarrow> Inl f
      | Inr (v, converted, erange) \<Rightarrow>
          if \<not> converted then Inl Terminated
          else if erange then Inl Terminated
          else Inr v)"

text \<open>
  \<open>intValue\<close> (\<open>jsont.cc\<close>, lines 95 to 109). In place, \<open>strtoll\<close> gets
  \<open>_value.data()\<close>, the address of the first byte of the slice inside the buffer, and
  not the length of the slice.
\<close>

definition intValue :: "Tokenizer \<Rightarrow> fault + int" where
  "intValue t =
     (if \<not> hasValue t then Inr (if token t = True_tok then 1 else 0)
      else if availableInput t = 0 then stoll (dataValue t)
      else case strtoll (fst (val t)) (drop (fst (val t)) (input t)) of
        Inl f \<Rightarrow> Inl f
      | Inr (v, converted, erange) \<Rightarrow> Inr v)"


text \<open>
  \<open>strtod\<close> (ISO C, 7.22.1.3): white space, an optional sign, then the longest of
  \<^item> decimal digits with an optional radix point (at least one digit), then an optional
    exponent: \<open>e\<close> or \<open>E\<close>, an optional sign, decimal digits;
  \<^item> \<open>0x\<close> or \<open>0X\<close>, hexadecimal digits with an optional radix point (at least one
    digit), then an optional exponent: \<open>p\<close> or \<open>P\<close>, an optional sign, decimal digits;
  \<^item> \<open>INF\<close> or \<open>INFINITY\<close>, ignoring case;
  \<^item> \<open>NAN\<close> or \<open>NAN(...)\<close>, ignoring case.
  \<open>strtod_subject\<close> returns this subject sequence, empty when there is none. The
  radix point is that of the \<open>C\<close> locale.
\<close>

definition is_binary_exponent_introducer :: "char \<Rightarrow> bool" where
  "is_binary_exponent_introducer c = (c = CHR ''P'' \<or> c = CHR ''p'')"

definition read_mantissa :: "(char \<Rightarrow> bool) \<Rightarrow> nat \<Rightarrow> string \<Rightarrow> fault + (string \<times> nat \<times> string)" where
  "read_mantissa dig i bytes =
     (case span_read dig i bytes of
        Inl f \<Rightarrow> Inl f
      | Inr (ds1, j, r) \<Rightarrow>
          (case r of
             [] \<Rightarrow> Inl (OutOfBoundsRead j)
           | c # r1 \<Rightarrow>
               if c = CHR ''.'' then
                 (case span_read dig (j + 1) r1 of
                    Inl f \<Rightarrow> Inl f
                  | Inr (ds2, k, r2) \<Rightarrow> Inr (ds1 @ c # ds2, k, r2))
               else Inr (ds1, j, r)))"

definition read_exponent :: "(char \<Rightarrow> bool) \<Rightarrow> nat \<Rightarrow> string \<Rightarrow> fault + string" where
  "read_exponent intro j r =
     (case r of
        [] \<Rightarrow> Inl (OutOfBoundsRead j)
      | c # r1 \<Rightarrow>
          if \<not> intro c then Inr []
          else
            (case r1 of
               [] \<Rightarrow> Inl (OutOfBoundsRead (j + 1))
             | d # r2 \<Rightarrow>
                 if is_plus_minus d then
                   (case span_read safe_isdigit (j + 2) r2 of
                      Inl f \<Rightarrow> Inl f
                    | Inr (ds, k, r3) \<Rightarrow> Inr (if ds = [] then [] else c # d # ds))
                 else
                   (case span_read safe_isdigit (j + 1) r1 of
                      Inl f \<Rightarrow> Inl f
                    | Inr (ds, k, r3) \<Rightarrow> Inr (if ds = [] then [] else c # ds))))"

definition read_number :: "(char \<Rightarrow> bool) \<Rightarrow> (char \<Rightarrow> bool) \<Rightarrow> nat \<Rightarrow> string \<Rightarrow> fault + string" where
  "read_number dig intro i bytes =
     (case read_mantissa dig i bytes of
        Inl f \<Rightarrow> Inl f
      | Inr (m, j, r) \<Rightarrow>
          if \<not> list_ex dig m then Inr []
          else (case read_exponent intro j r of
                  Inl f \<Rightarrow> Inl f
                | Inr e \<Rightarrow> Inr (m @ e)))"

definition hex_follows :: "nat \<Rightarrow> string \<Rightarrow> fault + bool" where
  "hex_follows i r =
     (case r of
        [] \<Rightarrow> Inl (OutOfBoundsRead i)
      | h # r1 \<Rightarrow>
          if is_xdigit h then Inr True
          else if h = CHR ''.'' then
            (case r1 of
               [] \<Rightarrow> Inl (OutOfBoundsRead (i + 1))
             | h1 # r2 \<Rightarrow> Inr (is_xdigit h1))
          else Inr False)"

definition inf_subject :: "nat \<Rightarrow> string \<Rightarrow> fault + string" where
  "inf_subject k body =
     (case match_ci ''inf'' k body of
        Inl f \<Rightarrow> Inl f
      | Inr m \<Rightarrow>
          if \<not> m then Inr []
          else (case match_ci ''inity'' (k + 3) (drop 3 body) of
                  Inl f \<Rightarrow> Inl f
                | Inr m' \<Rightarrow> Inr (if m' then take 8 body else take 3 body)))"

definition nan_subject :: "nat \<Rightarrow> string \<Rightarrow> fault + string" where
  "nan_subject k body =
     (case match_ci ''nan'' k body of
        Inl f \<Rightarrow> Inl f
      | Inr m \<Rightarrow>
          if \<not> m then Inr []
          else (case drop 3 body of
                  [] \<Rightarrow> Inl (OutOfBoundsRead (k + 3))
                | p # r \<Rightarrow>
                    if p \<noteq> CHR ''('' then Inr (take 3 body)
                    else (case span_read is_nchar (k + 4) r of
                            Inl f \<Rightarrow> Inl f
                          | Inr (ns, j, r') \<Rightarrow>
                              Inr (if r' \<noteq> [] \<and> hd r' = CHR '')''
                                   then take (length ns + 5) body else take 3 body))))"

definition unsigned_subject :: "nat \<Rightarrow> string \<Rightarrow> fault + string" where
  "unsigned_subject k body =
     (case body of
        [] \<Rightarrow> Inl (OutOfBoundsRead k)
      | c # r \<Rightarrow>
          if to_lower c = CHR ''i'' then inf_subject k body
          else if to_lower c = CHR ''n'' then nan_subject k body
          else if c = CHR ''0'' then
            (case r of
               [] \<Rightarrow> Inl (OutOfBoundsRead (k + 1))
             | x # r2 \<Rightarrow>
                 if to_lower x = CHR ''x'' then
                   (case hex_follows (k + 2) r2 of
                      Inl f \<Rightarrow> Inl f
                    | Inr hex \<Rightarrow>
                        if hex then
                          (case read_number is_xdigit is_binary_exponent_introducer (k + 2) r2 of
                             Inl f \<Rightarrow> Inl f
                           | Inr h \<Rightarrow> Inr (c # x # h))
                        else read_number safe_isdigit is_exponent_introducer k body)
                 else read_number safe_isdigit is_exponent_introducer k body)
          else read_number safe_isdigit is_exponent_introducer k body)"

definition strtod_subject :: "nat \<Rightarrow> string \<Rightarrow> fault + string" where
  "strtod_subject i bytes =
     (case span_read isspace_c i bytes of
        Inl f \<Rightarrow> Inl f
      | Inr (ws, j, r) \<Rightarrow>
          (case r of
             [] \<Rightarrow> Inl (OutOfBoundsRead j)
           | c # r1 \<Rightarrow>
               (case (if is_plus_minus c then unsigned_subject (j + 1) r1
                      else unsigned_subject j r) of
                  Inl f \<Rightarrow> Inl f
                | Inr u \<Rightarrow>
                    Inr (if u = [] then [] else if is_plus_minus c then c # u else u))))"

text \<open>
  The value of \<open>strtod\<close> is a function of the subject sequence: \<open>conv\<close> gives, for a
  subject sequence, the \<open>double\<close> it converts to and whether it is out of range
  (\<open>ERANGE\<close>). \<open>conv\<close> is a parameter: doubles are not modelled. With no subject
  sequence the value is zero. \<open>std::stod\<close> runs \<open>strtod\<close> on a copy of the slice and
  throws as \<open>std::stoll\<close> does.
\<close>

definition strtod :: "(string \<Rightarrow> 'd \<times> bool) \<Rightarrow> nat \<Rightarrow> string \<Rightarrow> fault + 'd" where
  "strtod conv i bytes =
     (case strtod_subject i bytes of
        Inl f \<Rightarrow> Inl f
      | Inr subject \<Rightarrow> Inr (fst (conv (if subject = [] then ''0'' else subject))))"

definition stod :: "(string \<Rightarrow> 'd \<times> bool) \<Rightarrow> string \<Rightarrow> fault + 'd" where
  "stod conv s =
     (case strtod_subject 0 (s @ [CHR 0x00]) of
        Inl f \<Rightarrow> Inl f
      | Inr subject \<Rightarrow>
          if subject = [] then Inl Terminated
          else if snd (conv subject) then Inl Terminated
          else Inr (fst (conv subject)))"

text \<open>
  \<open>floatValue\<close> (\<open>jsont.cc\<close>, lines 79 to 93); \<open>1.0\<close> and \<open>0.0\<close> are what the
  numerals \<open>1\<close> and \<open>0\<close> convert to.
\<close>

definition floatValue :: "(string \<Rightarrow> 'd \<times> bool) \<Rightarrow> Tokenizer \<Rightarrow> fault + 'd" where
  "floatValue conv t =
     (if \<not> hasValue t then Inr (fst (conv (if token t = True_tok then ''1'' else ''0'')))
      else if availableInput t = 0 then stod conv (dataValue t)
      else strtod conv (fst (val t)) (drop (fst (val t)) (input t)))"

subsection \<open>The literals of the grammar\<close>







subsection \<open>Predicates used to state the properties\<close>

text \<open>The invariant of the data model: the cursor is within the buffer.\<close>

definition wf :: "Tokenizer \<Rightarrow> bool" where
  "wf t = (offset t \<le> length (input t))"

text \<open>
  \<open>moved t t'\<close>: the buffer is the same and the cursor went forward, staying within the
  buffer.
\<close>

definition moved :: "Tokenizer \<Rightarrow> Tokenizer \<Rightarrow> bool" where
  "moved t t' = (input t' = input t \<and> offset t \<le> offset t' \<and> offset t' \<le> length (input t))"

text \<open>
  \<open>gap t\<close>: the cursor is at the end of the buffer or at least two bytes before it,
  never on the last byte.
\<close>

definition gap :: "Tokenizer \<Rightarrow> bool" where
  "gap t = (offset t = length (input t) \<or> offset t + 1 < length (input t))"

text \<open>
  \<open>scanned t t'\<close>: what one call of \<open>next\<close> guarantees about the state \<open>t'\<close> it
  leaves when started in \<open>t\<close>.
\<close>

definition scanned :: "Tokenizer \<Rightarrow> Tokenizer \<Rightarrow> bool" where
  "scanned t t' =
     (moved t t' \<and> token t' \<noteq> Comma
      \<and> (token t' = End \<longrightarrow> offset t' = length (input t'))
      \<and> (hasValue t' \<longrightarrow>
            offset t \<le> fst (val t') \<and> 0 < snd (val t')
            \<and> fst (val t') + snd (val t') \<le> offset t'
            \<and> (token t' = Integer \<or> token t' = Float \<longrightarrow>
                  fst (val t') + snd (val t') = offset t')))"

text \<open>
  \<open>significant_at t i\<close>: the next significant byte of the input is the one at index
  \<open>i\<close>, that is, only whitespace lies between the cursor and \<open>i\<close>.
\<close>

definition significant_at :: "Tokenizer \<Rightarrow> nat \<Rightarrow> bool" where
  "significant_at t i =
     (offset t \<le> i \<and> i < length (input t)
      \<and> (\<forall>j \<in> {offset t..<i}. is_ws (input t ! j)) \<and> \<not> is_ws (input t ! i))"

text \<open>
  \<open>seg buf i j\<close> is the part of the buffer from index \<open>i\<close> up to, not including,
  index \<open>j\<close>; \<open>digits_end buf i\<close> is the index of the first byte at or after \<open>i\<close> that
  is not a digit, the length when there is none.
\<close>

definition seg :: "string \<Rightarrow> nat \<Rightarrow> nat \<Rightarrow> string" where
  "seg buf i j = take (j - i) (drop i buf)"





section \<open>Properties\<close>

subsection \<open>Field projections and frames\<close>

lemma setToken_simps [simp]:
  "input (setToken k t) = input t" "offset (setToken k t) = offset t"
  "token (setToken k t) = k" "error (setToken k t) = error t" "val (setToken k t) = val t"
  by (simp_all add: setToken_def)

lemma setError_simps [simp]:
  "input (setError e t) = input t" "offset (setError e t) = offset t"
  "token (setError e t) = Error" "error (setError e t) = e" "val (setError e t) = val t"
  by (simp_all add: setError_def)

lemma moved_refl: "wf t \<Longrightarrow> moved t t"
  by (simp add: moved_def wf_def)

lemma moved_trans: "moved a b \<Longrightarrow> moved b c \<Longrightarrow> moved a c"
  by (auto simp: moved_def)

lemma peek_in: "i < length (input t) \<Longrightarrow> peek t i = Inr (input t ! i)"
  by (simp add: peek_def)

lemma skipWS_post:
  "wf t \<Longrightarrow> \<exists>t'. skipWS t = Inr t' \<and> t' = t\<lparr>offset := offset t'\<rparr> \<and> moved t t'
      \<and> (\<forall>i. offset t \<le> i \<and> i < offset t' \<longrightarrow> is_ws (input t ! i))
      \<and> (offset t' < length (input t) \<longrightarrow> \<not> is_ws (input t ! offset t'))"
proof (induction t rule: skipWS.induct)
  case (1 t)
  show ?case
  proof (cases "endOfInput t")
    case True
    then show ?thesis using "1.prems"
      by (auto simp: skipWS.simps [of t] moved_def wf_def endOfInput_def)
  next
    case False
    with "1.prems" have lt: "offset t < length (input t)"
      by (simp add: wf_def endOfInput_def)
    then have pk: "peek t (offset t) = Inr (input t ! offset t)" by (rule peek_in)
    show ?thesis
    proof (cases "is_ws (input t ! offset t)")
      case True
      let ?t1 = "t\<lparr>offset := offset t + 1\<rparr>"
      have "wf ?t1" using lt by (simp add: wf_def)
      from "1.IH" [OF False pk refl True this]
      obtain t' where t': "skipWS ?t1 = Inr t'" "t' = ?t1\<lparr>offset := offset t'\<rparr>" "moved ?t1 t'"
        "\<forall>i. offset ?t1 \<le> i \<and> i < offset t' \<longrightarrow> is_ws (input ?t1 ! i)"
        "offset t' < length (input ?t1) \<longrightarrow> \<not> is_ws (input ?t1 ! offset t')"
        by blast
      have eq: "skipWS t = Inr t'" using False pk True t'(1) by (simp add: skipWS.simps [of t])
      have a: "t' = t\<lparr>offset := offset t'\<rparr>" using t'(2) by simp
      have b: "moved t t'" using t'(3) by (simp add: moved_def)
      have c: "\<forall>i. offset t \<le> i \<and> i < offset t' \<longrightarrow> is_ws (input t ! i)"
      proof (intro allI impI)
        fix i assume i: "offset t \<le> i \<and> i < offset t'"
        show "is_ws (input t ! i)"
        proof (cases "i = offset t")
          case True then show ?thesis using \<open>is_ws (input t ! offset t)\<close> by simp
        next
          case False
          with i t'(4) show ?thesis by simp
        qed
      qed
      from eq a b c t'(5) show ?thesis by simp
    next
      case nws: False
      have "skipWS t = Inr t" using False pk nws by (simp add: skipWS.simps [of t])
      then show ?thesis using nws "1.prems" by (auto simp: moved_def wf_def)
    qed
  qed
qed


lemma readDigits_loop_post:
  "wf t \<Longrightarrow> \<exists>d t'. readDigits_loop n t = Inr (d, t') \<and> t' = t\<lparr>offset := offset t'\<rparr>
      \<and> moved t t' \<and> (offset t' = length (input t) \<or> offset t < offset t') \<and> n \<le> d"
proof (induction n t rule: readDigits_loop.induct)
  case (1 n t)
  show ?case
  proof (cases "endOfInput t")
    case True
    then show ?thesis using "1.prems"
      by (auto simp: readDigits_loop.simps [of n t] moved_def wf_def endOfInput_def)
  next
    case False
    with "1.prems" have lt: "offset t < length (input t)"
      by (simp add: wf_def endOfInput_def)
    then have pk: "peek t (offset t) = Inr (input t ! offset t)" by (rule peek_in)
    let ?t1 = "t\<lparr>offset := offset t + 1\<rparr>"
    have wf1: "wf ?t1" using lt by (simp add: wf_def)
    show ?thesis
    proof (cases "safe_isdigit (input t ! offset t)")
      case True
      from "1.IH" [OF False pk refl True wf1]
      obtain d t' where t': "readDigits_loop (n + 1) ?t1 = Inr (d, t')"
        "t' = ?t1\<lparr>offset := offset t'\<rparr>" "moved ?t1 t'" "n + 1 \<le> d"
        by blast
      have "readDigits_loop n t = Inr (d, t')"
        using False pk True t'(1) by (simp add: readDigits_loop.simps [of n t])
      moreover have "t' = t\<lparr>offset := offset t'\<rparr>" using t'(2) by simp
      moreover have "moved t t'" "offset t < offset t'" using t'(3) by (simp_all add: moved_def)
      ultimately show ?thesis using t'(4) by simp
    next
      case nd: False
      have "readDigits_loop n t = Inr (n, ?t1)"
        using False pk nd by (simp add: readDigits_loop.simps [of n t])
      then show ?thesis using lt by (simp add: moved_def)
    qed
  qed
qed

lemma readDigits_post:
  "wf t \<Longrightarrow> \<exists>ok t'. readDigits n t = Inr (ok, t') \<and> t' = t\<lparr>offset := offset t'\<rparr>
      \<and> moved t t' \<and> gap t'"
proof -
  assume "wf t"
  from readDigits_loop_post [OF this, of n]
  obtain d t1 where l: "readDigits_loop n t = Inr (d, t1)" "t1 = t\<lparr>offset := offset t1\<rparr>"
    "moved t t1" "offset t1 = length (input t) \<or> offset t < offset t1"
    by blast
  let ?t' = "if \<not> endOfInput t1 then t1\<lparr>offset := offset t1 - 1\<rparr> else t1"
  have r: "readDigits n t = Inr (d > 0, ?t')" using l(1) by (simp add: readDigits_def)
  have in1: "input t1 = input t" using l(3) by (simp add: moved_def)
  have upd: "t1\<lparr>offset := k\<rparr> = t\<lparr>offset := k\<rparr>" for k
    by (subst l(2)) simp
  have a: "?t' = t\<lparr>offset := offset ?t'\<rparr>"
  proof (cases "endOfInput t1")
    case True
    then show ?thesis using l(2) by simp
  next
    case False
    then show ?thesis using upd by simp
  qed
  have b: "moved t ?t'" using l(3,4) in1 by (auto simp: moved_def endOfInput_def)
  have c: "gap ?t'" using l(3,4) in1 by (auto simp: gap_def moved_def endOfInput_def)
  from r a b c show ?thesis by blast
qed


lemma wf_moved: "moved t t' \<Longrightarrow> wf t'"
  by (simp add: moved_def wf_def)

lemma readFraction_post:
  assumes "wf t" "gap t"
  shows "\<exists>ok t'. readFraction t = Inr (ok, t') \<and> moved t t' \<and> gap t'
      \<and> val t' = val t \<and> (token t' = token t \<or> token t' = Float)"
proof (cases "endOfInput t \<or> input t ! offset t \<noteq> CHR ''.''")
  case True
  then have "readFraction t = Inr (True, t)"
    using assms(1) by (auto simp: readFraction_def peek_def wf_def endOfInput_def)
  then show ?thesis using assms by (auto simp: moved_refl)
next
  case False
  then have lt: "offset t < length (input t)" using assms(1) by (simp add: wf_def endOfInput_def)
  let ?t2 = "(setToken Float t)\<lparr>offset := offset t + 1\<rparr>"
  have wf2: "wf ?t2" using lt by (simp add: wf_def)
  from readDigits_post [OF wf2, of 0]
  obtain ok t' where d: "readDigits 0 ?t2 = Inr (ok, t')" "t' = ?t2\<lparr>offset := offset t'\<rparr>"
    "moved ?t2 t'" "gap t'" by blast
  have "readFraction t = Inr (ok, t')"
    using False lt d(1) by (simp add: readFraction_def peek_def Let_def endOfInput_def)
  moreover have "moved t t'" using d(3) by (simp add: moved_def)
  moreover have "val t' = val t" "token t' = Float"
    by (subst d(2), simp)+
  ultimately show ?thesis using d(4) by simp
qed

lemma readExponent_post:
  assumes "wf t" "gap t"
  shows "\<exists>ok t'. readExponent t = Inr (ok, t') \<and> moved t t' \<and> gap t'
      \<and> val t' = val t \<and> (token t' = token t \<or> token t' = Float)"
proof (cases "endOfInput t \<or> \<not> is_exponent_introducer (input t ! offset t)")
  case True
  then have "readExponent t = Inr (True, t)"
    using assms(1) by (auto simp: readExponent_def peek_def wf_def endOfInput_def)
  then show ?thesis using assms by (auto simp: moved_refl)
next
  case False
  then have "offset t \<noteq> length (input t)" by (simp add: endOfInput_def)
  with assms(2) have lt: "offset t + 1 < length (input t)" by (simp add: gap_def)
  let ?t2 = "(setToken Float t)\<lparr>offset := offset t + 1\<rparr>"
  let ?c = "input t ! (offset t + 1)"
  let ?t3 = "if is_plus_minus ?c then ?t2\<lparr>offset := offset ?t2 + 1\<rparr> else ?t2"
  have wf3: "wf ?t3" using lt by (simp add: wf_def)
  from readDigits_post [OF wf3, of 0]
  obtain ok t' where d: "readDigits 0 ?t3 = Inr (ok, t')" "t' = ?t3\<lparr>offset := offset t'\<rparr>"
    "moved ?t3 t'" "gap t'" by blast
  have "readExponent t = Inr (ok, t')"
    using False lt d(1) by (auto simp: readExponent_def peek_def Let_def endOfInput_def split: if_splits)
  moreover have "moved t t'" using d(3) by (auto simp: moved_def split: if_splits)
  moreover have "val t' = val t" "token t' = Float"
    by (subst d(2), simp)+
  ultimately show ?thesis using d(4) by simp
qed

lemma readNumber_post:
  assumes "wf t" "ts \<le> offset t"
  shows "\<exists>t'. readNumber b ts t = Inr t' \<and> moved t t'
      \<and> (token t' = Error \<or> (token t' = Integer \<or> token t' = Float)
            \<and> val t' = (ts, offset t' - ts))"
proof (cases "\<not> safe_isdigit b \<and> b \<noteq> CHR ''-''")
  case True
  then have "readNumber b ts t = Inr (setError InvalidByte t)"
    by (auto simp: readNumber_def Let_def)
  then show ?thesis using assms by (simp add: moved_def wf_def)
next
  case False
  let ?t0 = "setToken Integer t"
  have wf0: "wf ?t0" using assms(1) by (simp add: wf_def)
  from readDigits_post [OF wf0, of "if safe_isdigit b then 1 else 0"]
  obtain ok1 t1 where d1: "readDigits (if safe_isdigit b then 1 else 0) ?t0 = Inr (ok1, t1)"
    "t1 = ?t0\<lparr>offset := offset t1\<rparr>" "moved ?t0 t1" "gap t1" by blast
  have m1: "moved t t1" using d1(3) by (simp add: moved_def)
  have k1: "token t1 = Integer" by (subst d1(2)) simp
  from readFraction_post [OF wf_moved [OF m1] d1(4)]
  obtain ok2 t2 where d2: "readFraction t1 = Inr (ok2, t2)" "moved t1 t2" "gap t2"
    "token t2 = token t1 \<or> token t2 = Float" by blast
  have m2: "moved t t2" using m1 d2(2) by (rule moved_trans)
  from readExponent_post [OF wf_moved [OF m2] d2(3)]
  obtain ok3 t3 where d3: "readExponent t2 = Inr (ok3, t3)" "moved t2 t3"
    "token t3 = token t2 \<or> token t3 = Float" by blast
  have m3: "moved t t3" using m2 d3(2) by (rule moved_trans)
  have sub: "substr t3 ts (offset t3 - ts) = Inr (ts, offset t3 - ts)"
    using m3 assms(2) by (auto simp: substr_def moved_def)
  show ?thesis
  proof (cases "ok1 \<and> ok2 \<and> ok3")
    case True
    then have "readNumber b ts t = Inr (t3\<lparr>val := (ts, offset t3 - ts)\<rparr>)"
      using False d1(1) d2(1) d3(1) sub by (auto simp: readNumber_def Let_def)
    then show ?thesis using m3 d3(3) d2(4) k1 by (auto simp: moved_def)
  next
    case F: False
    then consider "\<not> ok1" | "ok1" "\<not> ok2" | "ok1" "ok2" "\<not> ok3" by blast
    then show ?thesis
    proof cases
      case 1
      then have "readNumber b ts t = Inr (setError MalformedNumberLiteral t1)"
        using False d1(1) by (auto simp: readNumber_def Let_def)
      then show ?thesis using m1 by (simp add: moved_def)
    next
      case 2
      then have "readNumber b ts t = Inr (setError MalformedNumberLiteral t2)"
        using False d1(1) d2(1) by (auto simp: readNumber_def Let_def)
      then show ?thesis using m2 by (simp add: moved_def)
    next
      case 3
      then have "readNumber b ts t = Inr (setError MalformedNumberLiteral t3)"
        using False d1(1) d2(1) d3(1) by (auto simp: readNumber_def Let_def)
      then show ?thesis using m3 by (simp add: moved_def)
    qed
  qed
qed

lemma readAtom_post:
  assumes "wf t"
  shows "\<exists>t'. readAtom atom k t = Inr t' \<and> moved t t' \<and> (token t' = Error \<or> token t' = k)"
proof -
  let ?n = "length atom"
  let ?ok = "setToken k (t\<lparr>offset := offset t + ?n\<rparr>)"
  have err: "moved t (setError e t) \<and> token (setError e t) = Error" for e
    using assms by (simp add: moved_def wf_def)
  consider (short) "availableInput t < ?n"
    | (differ) "\<not> availableInput t < ?n" "take ?n (drop (offset t) (input t)) \<noteq> atom"
    | (follow) "\<not> availableInput t < ?n" "take ?n (drop (offset t) (input t)) = atom"
        "availableInput t > ?n"
    | (last) "\<not> availableInput t < ?n" "take ?n (drop (offset t) (input t)) = atom"
        "\<not> availableInput t > ?n"
    by blast
  then show ?thesis
  proof cases
    case short
    then have "readAtom atom k t = Inr (setError PrematureEndOfInput t)"
      by (simp add: readAtom_def)
    then show ?thesis using err by blast
  next
    case differ
    then have "readAtom atom k t = Inr (setError InvalidByte t)"
      using assms by (simp add: readAtom_def wf_def)
    then show ?thesis using err by blast
  next
    case follow
    have lt: "offset t + ?n < length (input t)"
      using follow(3) by (simp add: availableInput_def)
    let ?c = "input t ! (offset t + ?n)"
    have r: "readAtom atom k t =
        (if safe_isalnum ?c then Inr (setError SyntaxError t) else Inr ?ok)"
      using follow lt assms by (simp add: readAtom_def wf_def peek_def)
    have "moved t ?ok \<and> token ?ok = k" using lt by (simp add: moved_def)
    then show ?thesis using r err by (cases "safe_isalnum ?c") auto
  next
    case last
    have le: "offset t + ?n \<le> length (input t)"
      using last(1,3) assms by (simp add: availableInput_def wf_def)
    have r: "readAtom atom k t = Inr ?ok"
      using last assms by (simp add: readAtom_def wf_def)
    have "moved t ?ok \<and> token ?ok = k" using le by (simp add: moved_def)
    then show ?thesis using r by blast
  qed
qed


lemma readString_loop_post:
  "wf t \<Longrightarrow> \<exists>r. readString_loop b t = Inr r \<and>
      (case r of Returned t' \<Rightarrow> moved t t' \<and> token t' = Error
       | Fell_out b1 t1 \<Rightarrow> moved t t1)"
proof (induction b t rule: readString_loop.induct)
  case (1 b t)
  show ?case
  proof (cases "endOfInput t")
    case True
    then show ?thesis using "1.prems"
      by (simp add: readString_loop.simps [of b t] moved_refl)
  next
    case False
    with "1.prems" have lt: "offset t < length (input t)"
      by (simp add: wf_def endOfInput_def)
    then have pk: "peek t (offset t) = Inr (input t ! offset t)" by (rule peek_in)
    let ?b = "input t ! offset t"
    let ?t1 = "t\<lparr>offset := offset t + 1\<rparr>"
    have m1: "moved t ?t1" using lt by (simp add: moved_def)
    consider (esc_end) "?b = CHR 0x5C" "endOfInput ?t1"
      | (esc) "?b = CHR 0x5C" "\<not> endOfInput ?t1"
      | (quote) "?b \<noteq> CHR 0x5C" "?b = CHR 0x22"
      | (nul) "?b \<noteq> CHR 0x5C" "?b \<noteq> CHR 0x22" "?b = CHR 0x00"
      | (other) "?b \<noteq> CHR 0x5C" "?b \<noteq> CHR 0x22" "?b \<noteq> CHR 0x00"
      by blast
    then show ?thesis
    proof cases
      case esc_end
      then have "readString_loop b t = Inr (Returned (setError PrematureEndOfInput ?t1))"
        using False pk by (simp add: readString_loop.simps [of b t])
      then show ?thesis using m1 by (simp add: moved_def)
    next
      case esc
      let ?t2 = "?t1\<lparr>offset := offset ?t1 + 1\<rparr>"
      have lt2: "offset t + 1 < length (input t)" using esc(2) lt by (simp add: endOfInput_def)
      then have wf2: "wf ?t2" by (simp add: wf_def)
      from "1.IH"(1) [OF False pk refl esc wf2]
      obtain r where r: "readString_loop ?b ?t2 = Inr r"
        "case r of Returned t' \<Rightarrow> moved ?t2 t' \<and> token t' = Error | Fell_out b1 t1 \<Rightarrow> moved ?t2 t1"
        by blast
      have "readString_loop b t = Inr r"
        using False pk esc r(1) by (simp add: readString_loop.simps [of b t])
      then show ?thesis using r(2) by (auto simp: moved_def split: loop_exit.splits)
    next
      case quote
      then have "readString_loop b t = Inr (Fell_out ?b ?t1)"
        using False pk by (simp add: readString_loop.simps [of b t])
      then show ?thesis using m1 by simp
    next
      case nul
      then have "readString_loop b t = Inr (Returned (setError InvalidByte ?t1))"
        using False pk by (simp add: readString_loop.simps [of b t])
      then show ?thesis using m1 by (simp add: moved_def)
    next
      case other
      have wf1: "wf ?t1" using lt by (simp add: wf_def)
      from "1.IH"(2) [OF False pk refl other wf1]
      obtain r where r: "readString_loop ?b ?t1 = Inr r"
        "case r of Returned t' \<Rightarrow> moved ?t1 t' \<and> token t' = Error | Fell_out b1 t1 \<Rightarrow> moved ?t1 t1"
        by blast
      have "readString_loop b t = Inr r"
        using False pk other r(1) by (simp add: readString_loop.simps [of b t])
      then show ?thesis using r(2) by (auto simp: moved_def split: loop_exit.splits)
    qed
  qed
qed

lemma readString_post:
  assumes "wf t" "ts \<le> offset t"
  shows "\<exists>t'. readString b ts t = Inr t' \<and> moved t t'
      \<and> (token t' = Error \<or> (token t' = String \<or> token t' = FieldName)
            \<and> fst (val t') = ts \<and> offset t \<le> ts + snd (val t')
            \<and> ts + snd (val t') \<le> offset t')"
proof -
  from readString_loop_post [OF assms(1), of b]
  obtain r where r: "readString_loop b t = Inr r"
    "case r of Returned t' \<Rightarrow> moved t t' \<and> token t' = Error | Fell_out b1 t1 \<Rightarrow> moved t t1"
    by blast
  show ?thesis
  proof (cases r)
    case (Returned t')
    then have "readString b ts t = Inr t'" using r(1) by (simp add: readString_def)
    then show ?thesis using r(2) Returned by simp
  next
    case (Fell_out b1 t1)
    with r(2) have m1: "moved t t1" by simp
    show ?thesis
    proof (cases "b1 = CHR 0x22")
      case False
      then have "readString b ts t = Inr (setError UnterminatedString t1)"
        using r(1) Fell_out by (simp add: readString_def)
      then show ?thesis using m1 by (simp add: moved_def)
    next
      case True
      let ?v = "(ts, offset t1 - ts)"
      let ?tv = "t1\<lparr>val := ?v\<rparr>"
      have sub: "substr t1 ts (offset t1 - ts) = Inr ?v"
        using m1 assms(2) by (auto simp: substr_def moved_def)
      have wfv: "wf ?tv" using m1 by (simp add: wf_def moved_def)
      from skipWS_post [OF wfv]
      obtain t2 where s: "skipWS ?tv = Inr t2" "t2 = ?tv\<lparr>offset := offset t2\<rparr>" "moved ?tv t2"
        by blast
      have v2: "val t2 = ?v" by (subst s(2)) simp
      have m2: "moved t t2" using m1 s(3) by (auto simp: moved_def)
      have o12: "offset t1 \<le> offset t2" using s(3) by (simp add: moved_def)
      have o01: "offset t \<le> offset t1" using m1 by (simp add: moved_def)
      show ?thesis
      proof (cases "endOfInput t2")
        case True
        then have "readString b ts t = Inr (setToken String t2)"
          using r(1) Fell_out \<open>b1 = CHR 0x22\<close> sub s(1) by (simp add: readString_def)
        then show ?thesis using m2 v2 o12 o01 assms(2) by (simp add: moved_def)
      next
        case False
        then have lt: "offset t2 < length (input t2)"
          using m2 by (simp add: endOfInput_def moved_def)
        let ?b2 = "input t2 ! offset t2"
        let ?t3 = "t2\<lparr>offset := offset t2 + 1\<rparr>"
        let ?res = "if ?b2 = CHR '':'' then setToken FieldName ?t3
                    else if ?b2 = CHR '','' \<or> ?b2 = CHR '']'' \<or> ?b2 = CHR ''}''
                      then setToken String (?t3\<lparr>offset := offset ?t3 - 1\<rparr>)
                    else if ?b2 = CHR 0x00 then setError InvalidByte ?t3
                    else setError SyntaxError ?t3"
        have "readString b ts t = Inr ?res"
          using r(1) Fell_out \<open>b1 = CHR 0x22\<close> sub s(1) False lt
          by (simp add: readString_def peek_def Let_def)
        moreover have "moved t ?res" using m2 lt by (simp add: moved_def)
        moreover have "token ?res = Error \<or> (token ?res = String \<or> token ?res = FieldName)
            \<and> fst (val ?res) = ts \<and> offset t \<le> ts + snd (val ?res)
            \<and> ts + snd (val ?res) \<le> offset ?res"
          using v2 o12 o01 assms(2) by simp
        ultimately show ?thesis by blast
      qed
    qed
  qed
qed


lemma scanned_mono:
  "moved t t0 \<Longrightarrow> scanned t0 t' \<Longrightarrow> scanned t t'"
  by (auto simp: scanned_def moved_def)

lemma next_token_readComma_post:
  "wf t \<Longrightarrow> \<exists>t'. next_token t = Inr t' \<and> scanned t t'"
  "wf c \<Longrightarrow> \<exists>t'. readComma c = Inr t' \<and> scanned c t'"
proof (induction t and c rule: next_token_readComma.induct)
  case (1 t)
  from skipWS_post [OF "1.prems"]
  obtain t0 where s: "skipWS t = Inr t0" "moved t t0" by blast
  show ?case
  proof (cases "endOfInput t0")
    case True
    then have "next_token t = Inr (setToken End t0)"
      using s(1) by (simp add: next_token.simps [of t])
    then show ?thesis using s(2) True
      by (simp add: scanned_def moved_def hasValue_def endOfInput_def)
  next
    case False
    then have lt: "offset t0 < length (input t0)"
      using s(2) by (simp add: endOfInput_def moved_def)
    then have pk: "peek t0 (offset t0) = Inr (input t0 ! offset t0)" by (rule peek_in)
    let ?b = "input t0 ! offset t0"
    let ?t1 = "t0\<lparr>offset := offset t0 + 1\<rparr>"
    have wf1: "wf ?t1" using lt by (simp add: wf_def)
    have m1: "moved t ?t1" using s(2) lt by (simp add: moved_def)
    have st: "offset t \<le> offset t0" using s(2) by (simp add: moved_def)
    let ?rest = "if ?b = CHR ''{'' then Inr (setToken ObjectStart ?t1)
                 else if ?b = CHR ''}'' then readEndBracket ObjectEnd ?t1
                 else if ?b = CHR ''['' then Inr (setToken ArrayStart ?t1)
                 else if ?b = CHR '']'' then readEndBracket ArrayEnd ?t1
                 else if ?b = CHR ''n'' then readAtom ''ull'' Null ?t1
                 else if ?b = CHR ''t'' then readAtom ''rue'' True_tok ?t1
                 else if ?b = CHR ''f'' then readAtom ''alse'' False_tok ?t1
                 else if ?b = CHR 0x00 then Inr (setError InvalidByte ?t1)
                 else if ?b = CHR 0x22 then readString ?b (offset t0) ?t1
                 else if ?b = CHR '','' then readComma ?t1
                 else readNumber ?b (offset t0) ?t1"
    have unf: "next_token t = ?rest"
      using s(1) False pk by (simp add: next_token.simps [of t] Let_def)
    have simple: "scanned t (setToken k ?t1)" if "k \<noteq> Comma" "k \<noteq> End"
      "k \<noteq> FieldName" "k \<noteq> String" "k \<noteq> Integer" "k \<noteq> Float" for k
      using m1 that by (simp add: scanned_def moved_def hasValue_def)
    have err: "scanned t (setError e ?t1)" for e
      using m1 by (simp add: scanned_def moved_def hasValue_def)
    have bracket: "\<exists>t'. readEndBracket k ?t1 = Inr t' \<and> scanned t t'"
      if "k = ObjectEnd \<or> k = ArrayEnd" for k
      using that simple [of k] err [of UnexpectedTrailingComma]
      by (auto simp: readEndBracket_def)
    have atom: "\<exists>t'. readAtom a k ?t1 = Inr t' \<and> scanned t t'"
      if "k = Null \<or> k = True_tok \<or> k = False_tok" for a k
    proof -
      from readAtom_post [OF wf1, of a k]
      obtain t' where "readAtom a k ?t1 = Inr t'" "moved ?t1 t'" "token t' = Error \<or> token t' = k"
        by blast
      then show ?thesis using that m1
        by (auto simp: scanned_def moved_def hasValue_def)
    qed
    have str: "\<exists>t'. readString ?b (offset t0) ?t1 = Inr t' \<and> scanned t t'"
    proof -
      from readString_post [OF wf1, of "offset t0" ?b]
      obtain t' where "readString ?b (offset t0) ?t1 = Inr t'" "moved ?t1 t'"
        "token t' = Error \<or> (token t' = String \<or> token t' = FieldName)
            \<and> fst (val t') = offset t0 \<and> offset ?t1 \<le> offset t0 + snd (val t')
            \<and> offset t0 + snd (val t') \<le> offset t'"
        by auto
      then show ?thesis using m1 st
        by (auto simp: scanned_def moved_def hasValue_def)
    qed
    have num: "\<exists>t'. readNumber ?b (offset t0) ?t1 = Inr t' \<and> scanned t t'"
    proof -
      from readNumber_post [OF wf1, of "offset t0" ?b]
      obtain t' where "readNumber ?b (offset t0) ?t1 = Inr t'" "moved ?t1 t'"
        "token t' = Error \<or> (token t' = Integer \<or> token t' = Float)
            \<and> val t' = (offset t0, offset t' - offset t0)"
        by auto
      then show ?thesis using m1 st
        by (auto simp: scanned_def moved_def hasValue_def)
    qed
    have comma: "\<exists>t'. readComma ?t1 = Inr t' \<and> scanned t t'" if c: "?b = CHR '',''"
    proof -
      have "\<exists>t'. readComma ?t1 = Inr t' \<and> scanned ?t1 t'"
        by (rule "1.IH" [OF s(1) False pk refl refl _ _ _ _ _ _ _ _ _ c wf1]) (simp_all add: c)
      then show ?thesis using m1 scanned_mono by blast
    qed
    consider (ob) "?b = CHR ''{''" | (cb) "?b = CHR ''}''" | (os) "?b = CHR ''[''"
      | (cs) "?b = CHR '']''" | (n) "?b = CHR ''n''" | (t) "?b = CHR ''t''"
      | (f) "?b = CHR ''f''" | (z) "?b = CHR 0x00" | (q) "?b = CHR 0x22" | (c) "?b = CHR '',''"
      | (other) "?b \<noteq> CHR ''{''" "?b \<noteq> CHR ''}''" "?b \<noteq> CHR ''[''" "?b \<noteq> CHR '']''"
          "?b \<noteq> CHR ''n''" "?b \<noteq> CHR ''t''" "?b \<noteq> CHR ''f''" "?b \<noteq> CHR 0x00"
          "?b \<noteq> CHR 0x22" "?b \<noteq> CHR '',''"
      by blast
    then show ?thesis
    proof cases
      case ob then show ?thesis unfolding unf using simple [of ObjectStart] by simp
    next
      case cb then show ?thesis unfolding unf using bracket [of ObjectEnd] by simp
    next
      case os then show ?thesis unfolding unf using simple [of ArrayStart] by simp
    next
      case cs then show ?thesis unfolding unf using bracket [of ArrayEnd] by simp
    next
      case n then show ?thesis unfolding unf using atom [of Null "''ull''"] by simp
    next
      case t then show ?thesis unfolding unf using atom [of True_tok "''rue''"] by simp
    next
      case f then show ?thesis unfolding unf using atom [of False_tok "''alse''"] by simp
    next
      case z then show ?thesis unfolding unf using err [of InvalidByte] by simp
    next
      case q then show ?thesis unfolding unf using str by simp
    next
      case c then show ?thesis unfolding unf using comma by simp
    next
      case other then show ?thesis unfolding unf using num by simp
    qed
  qed
next
  case (2 c)
  show ?case
  proof (cases "comma_legal_after (token c)")
    case False
    then have "readComma c = Inr (setError UnexpectedComma c)"
      by (simp add: readComma.simps [of c])
    then show ?thesis using "2.prems"
      by (simp add: scanned_def moved_def wf_def hasValue_def)
  next
    case True
    have wfc: "wf (setToken Comma c)" using "2.prems" by (simp add: wf_def)
    from "2.IH" [OF _ wfc] True
    obtain t' where "next_token (setToken Comma c) = Inr t'" "scanned (setToken Comma c) t'"
      by auto
    then show ?thesis using True
      by (auto simp: readComma.simps [of c] scanned_def moved_def)
  qed
qed

subsection \<open>The next significant byte\<close>

lemma significant_wf: "significant_at t i \<Longrightarrow> wf t"
  by (simp add: significant_at_def wf_def)

lemma skipWS_significant:
  assumes "significant_at t i"
  shows "skipWS t = Inr (t\<lparr>offset := i\<rparr>)"
proof -
  from skipWS_post [OF significant_wf [OF assms]]
  obtain t' where t': "skipWS t = Inr t'" "t' = t\<lparr>offset := offset t'\<rparr>" "moved t t'"
    "\<forall>j. offset t \<le> j \<and> j < offset t' \<longrightarrow> is_ws (input t ! j)"
    "offset t' < length (input t) \<longrightarrow> \<not> is_ws (input t ! offset t')"
    by blast
  have "offset t' = i"
  proof (rule ccontr)
    assume ne: "offset t' \<noteq> i"
    show False
    proof (cases "offset t' < i")
      case True
      then have "is_ws (input t ! offset t')"
        using assms t'(3) by (simp add: significant_at_def moved_def)
      moreover have "offset t' < length (input t)"
        using True assms by (simp add: significant_at_def)
      ultimately show False using t'(5) by simp
    next
      case False
      with ne have "i < offset t'" by simp
      then have "is_ws (input t ! i)" using assms t'(4) by (auto simp: significant_at_def)
      then show False using assms by (simp add: significant_at_def)
    qed
  qed
  with t'(1,2) show ?thesis by simp
qed

lemma skipWS_at_end: "endOfInput t \<Longrightarrow> skipWS t = Inr t"
  by (simp add: skipWS.simps [of t])

lemma next_token_significant:
  assumes "significant_at t i"
  shows "next_token t =
     (let b = input t ! i; t1 = t\<lparr>offset := i + 1\<rparr>
      in if b = CHR ''{'' then Inr (setToken ObjectStart t1)
         else if b = CHR ''}'' then readEndBracket ObjectEnd t1
         else if b = CHR ''['' then Inr (setToken ArrayStart t1)
         else if b = CHR '']'' then readEndBracket ArrayEnd t1
         else if b = CHR ''n'' then readAtom ''ull'' Null t1
         else if b = CHR ''t'' then readAtom ''rue'' True_tok t1
         else if b = CHR ''f'' then readAtom ''alse'' False_tok t1
         else if b = CHR 0x00 then Inr (setError InvalidByte t1)
         else if b = CHR 0x22 then readString b i t1
         else if b = CHR '','' then readComma t1
         else readNumber b i t1)"
proof -
  have lt: "i < length (input t)" using assms by (simp add: significant_at_def)
  show ?thesis
    using lt by (simp add: next_token.simps [of t] skipWS_significant [OF assms]
        endOfInput_def peek_def Let_def)
qed

subsection \<open>The end of the input\<close>

lemma next_token_wf: "next_token t = Inr t' \<Longrightarrow> wf t"
proof (rule ccontr)
  assume a: "next_token t = Inr t'" and "\<not> wf t"
  then have "length (input t) < offset t" by (simp add: wf_def)
  then have "skipWS t = Inl (OutOfBoundsRead (offset t))"
    by (simp add: skipWS.simps [of t] endOfInput_def peek_def)
  then have "next_token t = Inl (OutOfBoundsRead (offset t))"
    by (simp add: next_token.simps [of t])
  with a show False by simp
qed

text \<open>
  Claim C8. Once \<open>next\<close> has returned \<open>End\<close>, every later call returns \<open>End\<close>
  again and leaves the cursor where it was: any number \<open>n\<close> of further calls ends in
  the very state the first \<open>End\<close> left, whose cursor is at the end of the buffer.
\<close>

theorem end_is_idempotent:
  assumes "next_token t = Inr t'" "token t' = End"
  shows "next_n n t' = Inr t' \<and> offset t' = length (input t')"
proof -
  from next_token_readComma_post(1) [OF next_token_wf [OF assms(1)]] assms(1)
  have "scanned t t'" by auto
  with assms(2) have e: "endOfInput t'" by (simp add: scanned_def endOfInput_def)
  have "setToken End t' = t'" using assms(2) by (simp add: setToken_def)
  then have step: "next_token t' = Inr t'"
    using e by (simp add: next_token.simps [of t'] skipWS_at_end)
  have "next_n n t' = Inr t'"
    by (induction n) (simp_all add: step)
  then show ?thesis using e by (simp add: endOfInput_def)
qed

theorem end_is_idempotent_witness:
  "next_token (reset '' '') = Inr ((reset '' '')\<lparr>offset := 1\<rparr>)
   \<and> token ((reset '' '')\<lparr>offset := 1\<rparr>) = End
   \<and> next_n 3 ((reset '' '')\<lparr>offset := 1\<rparr>) = Inr ((reset '' '')\<lparr>offset := 1\<rparr>)"
proof -
  have a: "next_token (reset '' '') = Inr ((reset '' '')\<lparr>offset := 1\<rparr>)" by code_simp
  have b: "token ((reset '' '')\<lparr>offset := 1\<rparr>) = End" by (simp add: reset_def)
  from end_is_idempotent [OF a b, of 3] a b show ?thesis by blast
qed


subsection \<open>Atoms\<close>

lemma readAtom_after_first:
  assumes lt: "i < length (input t)" and hd: "input t ! i = c"
  shows "readAtom atom k (t\<lparr>offset := i + 1\<rparr>) = Inr
     (let rest = drop i (input t); n = length (c # atom); t1 = t\<lparr>offset := i + 1\<rparr>
      in if length rest < n then setError PrematureEndOfInput t1
         else if take n rest \<noteq> c # atom then setError InvalidByte t1
         else if n < length rest \<and> safe_isalnum (rest ! n) then setError SyntaxError t1
         else setToken k (t\<lparr>offset := i + n\<rparr>))"
proof -
  have d: "drop i (input t) = c # drop (i + 1) (input t)"
    using Cons_nth_drop_Suc [OF lt] hd by simp
  show ?thesis
    using lt
    by (auto simp: readAtom_def availableInput_def peek_def Let_def d)
qed

text \<open>
  Claim C6. Let the next significant byte, at index \<open>i\<close>, be the first byte of
  \<open>null\<close>, \<open>true\<close> or \<open>false\<close>. If fewer bytes remain from \<open>i\<close> on than the atom
  has, the call yields \<open>Error\<close> with \<open>PrematureEndOfInput\<close>; otherwise, if these bytes
  are not the atom, \<open>Error\<close> with \<open>InvalidByte\<close>; otherwise, if an alphanumeric byte
  follows the atom, \<open>Error\<close> with \<open>SyntaxError\<close>; otherwise the token is \<open>Null\<close>,
  \<open>True\<close> or \<open>False\<close> and the cursor stands \<open>length atom\<close> bytes (4, 4, 5) after
  \<open>i\<close>. In the three error cases the cursor stands just after the first byte.
\<close>

theorem atom_scanning:
  assumes "significant_at t i"
    and "(atom, k) \<in> {(''null'', Null), (''true'', True_tok), (''false'', False_tok)}"
    and "input t ! i = hd atom"
  shows "next_token t = Inr
     (let rest = drop i (input t); n = length atom; t1 = t\<lparr>offset := i + 1\<rparr>
      in if length rest < n then setError PrematureEndOfInput t1
         else if take n rest \<noteq> atom then setError InvalidByte t1
         else if n < length rest \<and> safe_isalnum (rest ! n) then setError SyntaxError t1
         else setToken k (t\<lparr>offset := i + n\<rparr>))"
proof -
  have lt: "i < length (input t)" using assms(1) by (simp add: significant_at_def)
  from assms(2) consider "atom = ''null''" "k = Null" | "atom = ''true''" "k = True_tok"
    | "atom = ''false''" "k = False_tok" by auto
  then show ?thesis
  proof cases
    case 1
    with assms(3) have c: "input t ! i = CHR ''n''" by simp
    show ?thesis
      unfolding next_token_significant [OF assms(1)] 1
      using readAtom_after_first [OF lt c, of "''ull''" Null] c by (simp add: Let_def)
  next
    case 2
    with assms(3) have c: "input t ! i = CHR ''t''" by simp
    show ?thesis
      unfolding next_token_significant [OF assms(1)] 2
      using readAtom_after_first [OF lt c, of "''rue''" True_tok] c by (simp add: Let_def)
  next
    case 3
    with assms(3) have c: "input t ! i = CHR ''f''" by simp
    show ?thesis
      unfolding next_token_significant [OF assms(1)] 3
      using readAtom_after_first [OF lt c, of "''alse''" False_tok] c by (simp add: Let_def)
  qed
qed


theorem atom_scanning_witness:
  "significant_at (reset ''  null,'') 2
   \<and> next_token (reset ''  null,'') = Inr (setToken Null ((reset ''  null,'')\<lparr>offset := 6\<rparr>))
   \<and> next_token (reset ''false'') = Inr (setToken False_tok ((reset ''false'')\<lparr>offset := 5\<rparr>))
   \<and> next_token (reset ''tr'') = Inr (setError PrematureEndOfInput ((reset ''tr'')\<lparr>offset := 1\<rparr>))
   \<and> next_token (reset ''trUe'') = Inr (setError InvalidByte ((reset ''trUe'')\<lparr>offset := 1\<rparr>))
   \<and> next_token (reset ''nullable'') = Inr (setError SyntaxError ((reset ''nullable'')\<lparr>offset := 1\<rparr>))"
proof -
  have s1: "significant_at (reset ''  null,'') 2"
    by code_simp
  have s2: "significant_at (reset ''false'') 0" "significant_at (reset ''tr'') 0"
    "significant_at (reset ''trUe'') 0" "significant_at (reset ''nullable'') 0"
    by (simp_all add: significant_at_def reset_def is_ws_def)
  have "next_token (reset ''  null,'') = Inr (setToken Null ((reset ''  null,'')\<lparr>offset := 6\<rparr>))"
    using atom_scanning [OF s1, of "''null''" Null]
    by (simp add: reset_def safe_isalnum_def)
  moreover
  have "next_token (reset ''false'') = Inr (setToken False_tok ((reset ''false'')\<lparr>offset := 5\<rparr>))"
    using atom_scanning [OF s2(1), of "''false''" False_tok]
    by (simp add: reset_def)
  moreover
  have "next_token (reset ''tr'') = Inr (setError PrematureEndOfInput ((reset ''tr'')\<lparr>offset := 1\<rparr>))"
    using atom_scanning [OF s2(2), of "''true''" True_tok]
    by (simp add: reset_def)
  moreover
  have "next_token (reset ''trUe'') = Inr (setError InvalidByte ((reset ''trUe'')\<lparr>offset := 1\<rparr>))"
    using atom_scanning [OF s2(3), of "''true''" True_tok]
    by (simp add: reset_def)
  moreover
  have "next_token (reset ''nullable'') = Inr (setError SyntaxError ((reset ''nullable'')\<lparr>offset := 1\<rparr>))"
    using atom_scanning [OF s2(4), of "''null''" Null]
    by (simp add: reset_def safe_isalnum_def)
  ultimately show ?thesis using s1 by blast
qed

subsection \<open>Commas\<close>

text \<open>
  Claim C9. A comma that is the next significant byte while the token before it is not a
  value, a \<open>]\<close> or a \<open>}\<close> yields \<open>Error\<close> with \<open>UnexpectedComma\<close>. A legal comma
  whose next significant byte is \<open>]\<close> or \<open>}\<close> yields \<open>Error\<close> with
  \<open>UnexpectedTrailingComma\<close>, in the call that scans the bracket. On \<open>[,1]\<close> the
  call after \<open>ArrayStart\<close> yields \<open>UnexpectedComma\<close>; on \<open>[1,]\<close> the call that scans
  \<open>]\<close> yields \<open>UnexpectedTrailingComma\<close>.
\<close>

theorem comma_misuse:
  "(significant_at t i \<and> input t ! i = CHR '','' \<and> \<not> comma_legal_after (token t)
      \<longrightarrow> next_token t = Inr (setError UnexpectedComma (t\<lparr>offset := i + 1\<rparr>)))
   \<and> (significant_at t i \<and> input t ! i = CHR '','' \<and> comma_legal_after (token t)
        \<and> significant_at (t\<lparr>offset := i + 1\<rparr>) j
        \<and> (input t ! j = CHR '']'' \<or> input t ! j = CHR ''}'')
      \<longrightarrow> next_token t =
            Inr (setError UnexpectedTrailingComma (setToken Comma (t\<lparr>offset := j + 1\<rparr>))))
   \<and> pull 2 (reset ''[,1]'') =
        [Inr (ArrayStart, None, [], 1), Inr (Error, Some UnexpectedComma, [], 2)]
   \<and> pull 3 (reset ''[1,]'') =
        [Inr (ArrayStart, None, [], 1), Inr (Integer, None, ''1'', 2),
         Inr (Error, Some UnexpectedTrailingComma, [], 4)]"
proof (intro conjI impI)
  assume a: "significant_at t i \<and> input t ! i = CHR '','' \<and> \<not> comma_legal_after (token t)"
  then have s: "significant_at t i" by simp
  show "next_token t = Inr (setError UnexpectedComma (t\<lparr>offset := i + 1\<rparr>))"
    using a by (simp add: next_token_significant [OF s] readComma.simps)
next
  assume a: "significant_at t i \<and> input t ! i = CHR '','' \<and> comma_legal_after (token t)
        \<and> significant_at (t\<lparr>offset := i + 1\<rparr>) j
        \<and> (input t ! j = CHR '']'' \<or> input t ! j = CHR ''}'')"
  let ?c = "setToken Comma (t\<lparr>offset := i + 1\<rparr>)"
  have sj: "significant_at ?c j" using a by (simp add: significant_at_def)
  from a have s: "significant_at t i" by simp
  have "next_token t = next_token ?c"
    using a by (simp add: next_token_significant [OF s] readComma.simps)
  also have "\<dots> = Inr (setError UnexpectedTrailingComma (?c\<lparr>offset := j + 1\<rparr>))"
    unfolding next_token_significant [OF sj] using a by (auto simp: readEndBracket_def Let_def)
  also have "setError UnexpectedTrailingComma (?c\<lparr>offset := j + 1\<rparr>)
      = setError UnexpectedTrailingComma (setToken Comma (t\<lparr>offset := j + 1\<rparr>))"
    by (simp add: setToken_def)
  finally show "next_token t =
      Inr (setError UnexpectedTrailingComma (setToken Comma (t\<lparr>offset := j + 1\<rparr>)))" .
next
  show "pull 2 (reset ''[,1]'') =
        [Inr (ArrayStart, None, [], 1), Inr (Error, Some UnexpectedComma, [], 2)]"
    by code_simp
next
  show "pull 3 (reset ''[1,]'') =
        [Inr (ArrayStart, None, [], 1), Inr (Integer, None, ''1'', 2),
         Inr (Error, Some UnexpectedTrailingComma, [], 4)]"
    by code_simp
qed

theorem comma_misuse_witness:
  "significant_at ((reset '' [ , ]'')\<lparr>offset := 2, token := ArrayStart\<rparr>) 3
   \<and> next_token ((reset '' [ , ]'')\<lparr>offset := 2, token := ArrayStart\<rparr>) =
       Inr (setError UnexpectedComma ((reset '' [ , ]'')\<lparr>offset := 4, token := ArrayStart\<rparr>))
   \<and> significant_at ((reset ''1 , }'')\<lparr>offset := 1, token := Integer\<rparr>) 2
   \<and> next_token ((reset ''1 , }'')\<lparr>offset := 1, token := Integer\<rparr>) =
       Inr (setError UnexpectedTrailingComma
             (setToken Comma ((reset ''1 , }'')\<lparr>offset := 5, token := Integer\<rparr>)))"
proof -
  let ?a = "(reset '' [ , ]'')\<lparr>offset := 2, token := ArrayStart\<rparr>"
  let ?b = "(reset ''1 , }'')\<lparr>offset := 1, token := Integer\<rparr>"
  have sa: "significant_at ?a 3" by code_simp
  have sb: "significant_at ?b 2" by code_simp
  have sb': "significant_at (?b\<lparr>offset := 2 + 1\<rparr>) 4" by code_simp
  have ia: "input ?a ! 3 = CHR '',''" "\<not> comma_legal_after (token ?a)"
    by (simp_all add: reset_def comma_legal_after_def)
  have ib: "input ?b ! 2 = CHR '',''" "comma_legal_after (token ?b)" "input ?b ! 4 = CHR ''}''"
    by (simp_all add: reset_def comma_legal_after_def)
  have "next_token ?a = Inr (setError UnexpectedComma (?a\<lparr>offset := 3 + 1\<rparr>))"
    using comma_misuse [of ?a 3] sa ia by blast
  moreover
  have "next_token ?b =
      Inr (setError UnexpectedTrailingComma (setToken Comma (?b\<lparr>offset := 4 + 1\<rparr>)))"
    using comma_misuse [of ?b 2 4] sb sb' ib by blast
  ultimately show ?thesis using sa sb by simp
qed

subsection \<open>Reads stay inside the buffer\<close>

text \<open>
  \<open>readExponent\<close> reads the byte after the introducer without a test for the end of
  the input: called on its own with the introducer as the last byte it reads out of
  bounds.
\<close>

lemma readExponent_unguarded_read:
  "readExponent (reset ''e'') = Inl (OutOfBoundsRead 1)"
  by code_simp

text \<open>
  Claim C4. Inside \<open>next\<close> the read is never out of bounds: \<open>readDigits\<close> always runs
  first and leaves the cursor at the end of the buffer or at least two bytes before it
  (\<open>readDigits_post\<close>), so an introducer that \<open>readExponent\<close> sees is never the last
  byte. From any state whose cursor is within the buffer, any number of calls of
  \<open>next\<close> returns a state and no fault: no read at an index at or after the length
  (whitespace, atoms, numbers with their exponent, strings) and no exception of a
  library call; the cursor stays within the buffer.
\<close>

theorem scanning_reads_in_bounds:
  "wf t \<Longrightarrow> \<exists>t'. next_n n t = Inr t' \<and> wf t' \<and> input t' = input t"
proof (induction n arbitrary: t)
  case 0
  then show ?case by simp
next
  case (Suc n)
  from next_token_readComma_post(1) [OF Suc.prems]
  obtain t1 where t1: "next_token t = Inr t1" "scanned t t1" by blast
  then have m: "moved t t1" by (simp add: scanned_def)
  from Suc.IH [OF wf_moved [OF m]]
  obtain t' where "next_n n t1 = Inr t'" "wf t'" "input t' = input t1" by blast
  then show ?case using t1(1) m by (simp add: moved_def)
qed

theorem scanning_reads_in_bounds_witness:
  "wf (reset ''[1.5e+3, -2E7]'')
   \<and> (\<exists>t'. next_n 4 (reset ''[1.5e+3, -2E7]'') = Inr t' \<and> wf t'
          \<and> input t' = input (reset ''[1.5e+3, -2E7]''))"
proof -
  have w: "wf (reset ''[1.5e+3, -2E7]'')" by (simp add: wf_def reset_def)
  from scanning_reads_in_bounds [OF w, of 4] w show ?thesis by blast
qed

subsection \<open>The bytes of a slice\<close>






lemma seg_length: "i \<le> j \<Longrightarrow> j \<le> length buf \<Longrightarrow> length (seg buf i j) = j - i"
  by (simp add: seg_def)

lemma seg_empty [simp]: "seg buf i i = []"
  by (simp add: seg_def)



lemma seg_to_end: "seg buf i (length buf) = drop i buf"
  by (simp add: seg_def)





















subsection \<open>Cursor and slice after a call\<close>




subsection \<open>The scanner on the inputs of the spec\<close>

text \<open>
  Claim C1. On \<open>["a","b"]\<close> the calls yield \<open>ArrayStart\<close>, \<open>String\<close> with slice
  \<open>"a"\<close>, \<open>String\<close> with slice \<open>"b"\<close>, \<open>ArrayEnd\<close>, then \<open>End\<close>. On \<open>{"a":1}\<close>
  they yield \<open>ObjectStart\<close>, \<open>FieldName\<close> with slice \<open>"a"\<close>, then \<open>Integer\<close> with the
  slice \<open>1}\<close> and the cursor at the end, then \<open>End\<close>: \<open>readDigits\<close> does not put back the
  byte that ends the digits when that byte is the last of the buffer, so the closing
  brace is taken into the number and \<open>ObjectEnd\<close> is never produced.
\<close>

theorem scan_object_and_array:
  "pull 10 (reset ''{\"a\":1}'') =
     [Inr (ObjectStart, None, [], 1), Inr (FieldName, None, ''\"a\"'', 5),
      Inr (Integer, None, ''1}'', 7), Inr (End, None, [], 7)]
   \<and> pull 10 (reset ''[\"a\",\"b\"]'') =
     [Inr (ArrayStart, None, [], 1), Inr (String, None, ''\"a\"'', 4),
      Inr (String, None, ''\"b\"'', 8), Inr (ArrayEnd, None, [], 9), Inr (End, None, [], 9)]"
  by code_simp

text \<open>
  Claim C3. \<open>42\<close> and \<open>-0\<close> are \<open>Integer\<close>, \<open>42.0\<close> and \<open>42e3\<close> are \<open>Float\<close>, a
  lone \<open>-\<close> is \<open>Error\<close> with \<open>MalformedNumberLiteral\<close>, and so is \<open>1.\<close> when a byte
  follows that is not the last one (\<open>1. ,\<close>). But the buffer \<open>1.\<close> yields \<open>Integer\<close>
  with the slice \<open>1.\<close>, and \<open>1e\<close> yields \<open>Integer\<close> with the slice \<open>1e\<close>: the byte
  that ends the digits is the last of the buffer, \<open>readDigits\<close> does not put it back, and
  \<open>readFraction\<close> and \<open>readExponent\<close> see the end of the input.
\<close>

theorem scan_numbers:
  "pull 1 (reset ''42'') = [Inr (Integer, None, ''42'', 2)]
   \<and> pull 1 (reset ''42.0'') = [Inr (Float, None, ''42.0'', 4)]
   \<and> pull 1 (reset ''42e3'') = [Inr (Float, None, ''42e3'', 4)]
   \<and> pull 1 (reset ''-0'') = [Inr (Integer, None, ''-0'', 2)]
   \<and> pull 1 (reset ''-'') = [Inr (Error, Some MalformedNumberLiteral, [], 1)]
   \<and> pull 1 (reset ''1. ,'') = [Inr (Error, Some MalformedNumberLiteral, [], 2)]
   \<and> pull 1 (reset ''1.'') = [Inr (Integer, None, ''1.'', 2)]
   \<and> pull 1 (reset ''1e'') = [Inr (Integer, None, ''1e'', 2)]"
  by code_simp

text \<open>
  A buffer that holds only the number \<open>123\<close>: one call yields \<open>Integer\<close> with the whole
  buffer as its slice and the cursor at the end, so that no input is available after it.
\<close>

lemma scan_number_at_buffer_end:
  "pull 2 (reset ''123'') = [Inr (Integer, None, ''123'', 3), Inr (End, None, [], 3)]
   \<and> next_token (reset ''123'') =
       Inr \<lparr>input = ''123'', offset = 3, token = Integer, error = UnspecifiedError,
            val = (0, 3)\<rparr>
   \<and> availableInput \<lparr>input = ''123'', offset = 3, token = Integer,
         error = UnspecifiedError, val = (0, 3)\<rparr> = 0"
  by code_simp

text \<open>
  Claim C5. A string cut by the end of the input yields \<open>Error\<close> with
  \<open>UnterminatedString\<close>, a backslash as the last byte \<open>PrematureEndOfInput\<close>, a NUL in the
  body \<open>InvalidByte\<close>. But a buffer that ends with the opening quote yields \<open>String\<close>
  with the one-byte slice of that quote: the loop reads nothing, and the test after it
  finds in \<open>b\<close> the opening quote that \<open>next\<close> passed in.
\<close>

theorem scan_strings:
  "pull 1 (reset [CHR 0x22, CHR ''a'']) = [Inr (Error, Some UnterminatedString, [], 2)]
   \<and> pull 1 (reset [CHR 0x22, CHR ''a'', CHR 0x5C]) =
       [Inr (Error, Some PrematureEndOfInput, [], 3)]
   \<and> pull 1 (reset [CHR 0x22, CHR ''a'', CHR 0x00, CHR 0x22]) =
       [Inr (Error, Some InvalidByte, [], 3)]
   \<and> pull 1 (reset [CHR 0x22]) = [Inr (String, None, [CHR 0x22], 1)]"
  by code_simp

subsection \<open>Numeric conversions at the edge of the buffer\<close>

text \<open>
  Claim C7. On the buffer \<open>123\<close> one call yields \<open>Integer\<close>, no input is available
  after it, and \<open>intValue\<close> converts a copy of the slice to 123. On the buffer \<open>0x1\<close>
  one call yields \<open>Integer\<close> with the slice \<open>0\<close> and two bytes available, so both
  accessors parse in place: \<open>intValue\<close> stops at the \<open>x\<close> and returns 0, but
  \<open>floatValue\<close> hands \<open>strtod\<close> the address of the slice, \<open>strtod\<close> takes \<open>0x1\<close> for
  the start of a hexadecimal number and reads the byte at index 3, after the last byte of
  the buffer.
\<close>

theorem conversions_at_buffer_edge:
  "next_token (reset ''123'') =
     Inr \<lparr>input = ''123'', offset = 3, token = Integer, error = UnspecifiedError, val = (0, 3)\<rparr>
   \<and> availableInput
        \<lparr>input = ''123'', offset = 3, token = Integer, error = UnspecifiedError, val = (0, 3)\<rparr> = 0
   \<and> intValue
        \<lparr>input = ''123'', offset = 3, token = Integer, error = UnspecifiedError, val = (0, 3)\<rparr>
       = Inr 123
   \<and> next_token (reset ''0x1'') =
     Inr \<lparr>input = ''0x1'', offset = 1, token = Integer, error = UnspecifiedError, val = (0, 1)\<rparr>
   \<and> availableInput
        \<lparr>input = ''0x1'', offset = 1, token = Integer, error = UnspecifiedError, val = (0, 1)\<rparr> = 2
   \<and> intValue
        \<lparr>input = ''0x1'', offset = 1, token = Integer, error = UnspecifiedError, val = (0, 1)\<rparr>
       = Inr 0
   \<and> floatValue conv
        \<lparr>input = ''0x1'', offset = 1, token = Integer, error = UnspecifiedError, val = (0, 1)\<rparr>
       = Inl (OutOfBoundsRead 3)"
proof -
  have s: "strtod_subject 0 ''0x1'' = Inl (OutOfBoundsRead 3)" by code_simp
  have f: "floatValue conv
        \<lparr>input = ''0x1'', offset = 1, token = Integer, error = UnspecifiedError, val = (0, 1)\<rparr>
       = Inl (OutOfBoundsRead 3)"
    by (simp add: floatValue_def hasValue_def availableInput_def strtod_def s)
  have r: "next_token (reset ''123'') =
     Inr \<lparr>input = ''123'', offset = 3, token = Integer, error = UnspecifiedError, val = (0, 3)\<rparr>"
    "availableInput
        \<lparr>input = ''123'', offset = 3, token = Integer, error = UnspecifiedError, val = (0, 3)\<rparr> = 0"
    "intValue
        \<lparr>input = ''123'', offset = 3, token = Integer, error = UnspecifiedError, val = (0, 3)\<rparr>
       = Inr 123"
    "next_token (reset ''0x1'') =
     Inr \<lparr>input = ''0x1'', offset = 1, token = Integer, error = UnspecifiedError, val = (0, 1)\<rparr>"
    "availableInput
        \<lparr>input = ''0x1'', offset = 1, token = Integer, error = UnspecifiedError, val = (0, 1)\<rparr> = 2"
    "intValue
        \<lparr>input = ''0x1'', offset = 1, token = Integer, error = UnspecifiedError, val = (0, 1)\<rparr>
       = Inr 0"
    by code_simp+
  from r f show ?thesis by blast
qed

text \<open>
  Claim C10. The slice \<open>0\<close> is the second token of \<open>[0x10]\<close> and of \<open>[0\<close>. In the
  first buffer input is available after it and \<open>floatValue\<close> parses in place: \<open>strtod\<close>
  converts \<open>0x10\<close>, four bytes that begin at the slice. In the second the slice ends the
  buffer and \<open>floatValue\<close> converts a copy of it, the numeral \<open>0\<close>. \<open>intValue\<close> returns
  0 in both.
\<close>

theorem conversion_branches_differ:
  "next_n 2 (reset ''[0x10]'') =
     Inr \<lparr>input = ''[0x10]'', offset = 2, token = Integer, error = UnspecifiedError, val = (1, 1)\<rparr>
   \<and> dataValue
        \<lparr>input = ''[0x10]'', offset = 2, token = Integer, error = UnspecifiedError, val = (1, 1)\<rparr>
       = ''0''
   \<and> floatValue conv
        \<lparr>input = ''[0x10]'', offset = 2, token = Integer, error = UnspecifiedError, val = (1, 1)\<rparr>
       = Inr (fst (conv ''0x10''))
   \<and> intValue
        \<lparr>input = ''[0x10]'', offset = 2, token = Integer, error = UnspecifiedError, val = (1, 1)\<rparr>
       = Inr 0
   \<and> next_n 2 (reset ''[0'') =
     Inr \<lparr>input = ''[0'', offset = 2, token = Integer, error = UnspecifiedError, val = (1, 1)\<rparr>
   \<and> dataValue
        \<lparr>input = ''[0'', offset = 2, token = Integer, error = UnspecifiedError, val = (1, 1)\<rparr>
       = ''0''
   \<and> floatValue conv
        \<lparr>input = ''[0'', offset = 2, token = Integer, error = UnspecifiedError, val = (1, 1)\<rparr>
       = (if snd (conv ''0'') then Inl Terminated else Inr (fst (conv ''0'')))
   \<and> intValue
        \<lparr>input = ''[0'', offset = 2, token = Integer, error = UnspecifiedError, val = (1, 1)\<rparr>
       = Inr 0"
proof -
  have s1: "strtod_subject (Suc 0) ''0x10]'' = Inr ''0x10''" by code_simp
  have s2: "strtod_subject 0 [CHR ''0'', CHR 0x00] = Inr ''0''" by code_simp
  have f1: "floatValue conv
        \<lparr>input = ''[0x10]'', offset = 2, token = Integer, error = UnspecifiedError, val = (1, 1)\<rparr>
       = Inr (fst (conv ''0x10''))"
    by (simp add: floatValue_def hasValue_def availableInput_def strtod_def s1)
  have f2: "floatValue conv
        \<lparr>input = ''[0'', offset = 2, token = Integer, error = UnspecifiedError, val = (1, 1)\<rparr>
       = (if snd (conv ''0'') then Inl Terminated else Inr (fst (conv ''0'')))"
    by (simp add: floatValue_def hasValue_def availableInput_def stod_def dataValue_def
        view_bytes_def s2)
  have r: "next_n 2 (reset ''[0x10]'') =
     Inr \<lparr>input = ''[0x10]'', offset = 2, token = Integer, error = UnspecifiedError, val = (1, 1)\<rparr>"
    "dataValue
        \<lparr>input = ''[0x10]'', offset = 2, token = Integer, error = UnspecifiedError, val = (1, 1)\<rparr>
       = ''0''"
    "intValue
        \<lparr>input = ''[0x10]'', offset = 2, token = Integer, error = UnspecifiedError, val = (1, 1)\<rparr>
       = Inr 0"
    "next_n 2 (reset ''[0'') =
     Inr \<lparr>input = ''[0'', offset = 2, token = Integer, error = UnspecifiedError, val = (1, 1)\<rparr>"
    "dataValue
        \<lparr>input = ''[0'', offset = 2, token = Integer, error = UnspecifiedError, val = (1, 1)\<rparr>
       = ''0''"
    "intValue
        \<lparr>input = ''[0'', offset = 2, token = Integer, error = UnspecifiedError, val = (1, 1)\<rparr>
       = Inr 0"
    by code_simp+
  from r f1 f2 show ?thesis by blast
qed

end
